theory Spec2Isabelle
  imports Complex_Main "HOL-Library.List_Lexorder" "HOL-Library.Product_Lexorder"
    "HOL-Library.Sublist" "HOL-Library.Multiset"
begin

section \<open>Off-topic channel names: data model\<close>

text \<open>
  Python strings are sequences of Unicode code points, and \<open>len\<close> counts code points.
  The substitution table of the validator leaves the 8-bit range, so a string is a list
  of code points here, each a natural number.
\<close>

type_synonym codepoint = nat
type_synonym ustr = "codepoint list"

text \<open>
  The exceptions that the module can raise or let through. \<open>BadArgument\<close> carries its
  message, \<open>ResponseCodeError\<close> the status of the response.
\<close>

datatype error =
    BadArgument string
  | ValueError
  | AttributeError
  | OverflowError
  | ResponseCodeError nat
  | OtherError

section \<open>The converter \<open>OffTopicName.convert\<close>\<close>

definition ascii :: "string \<Rightarrow> ustr" where
  \<comment> \<open>the code points of a literal of ASCII characters\<close>
  "ascii s = map of_char s"

definition allowed_characters :: ustr where
  \<comment> \<open>the literal \<open>ABCDEFGHIJKLMNOPQRSTUVWXYZ!?'`-\<close>, its apostrophe written as 39\<close>
  "allowed_characters = ascii ''ABCDEFGHIJKLMNOPQRSTUVWXYZ!?'' @ [39] @ ascii ''`-''"

definition replacement_characters :: ustr where
  \<comment> \<open>the second argument of \<open>str.maketrans\<close>: U+1D5A0 .. U+1D5B9, U+01C3, U+FF1F,
      U+2019, U+2019, U+002D\<close>
  "replacement_characters =
     [120224, 120225, 120226, 120227, 120228, 120229, 120230, 120231, 120232, 120233, 120234,
      120235, 120236, 120237, 120238, 120239, 120240, 120241, 120242, 120243, 120244, 120245,
      120246, 120247, 120248, 120249, 451, 65311, 8217, 8217, 45]"

definition length_message :: string where
  "length_message = ''Channel name must be between 2 and 96 chars long''"

definition characters_message :: string where
  "characters_message =
     ''Channel name must only consist of alphanumeric characters, minus signs or apostrophes.''"

definition maketrans :: "ustr \<Rightarrow> ustr \<Rightarrow> error + (codepoint \<rightharpoonup> codepoint)" where
  \<comment> \<open>\<open>str.maketrans(x, y)\<close>: a dictionary from each character of \<open>x\<close> to the character of
      \<open>y\<close> at the same position, a later position winning; ValueError on unequal lengths\<close>
  "maketrans x y =
     (if length x \<noteq> length y then Inl ValueError else Inr (map_of (rev (zip x y))))"

definition translate :: "(codepoint \<rightharpoonup> codepoint) \<Rightarrow> ustr \<Rightarrow> ustr" where
  \<comment> \<open>\<open>str.translate\<close>: a character with an entry is replaced, any other is kept\<close>
  "translate table s = map (\<lambda>c. case table c of None \<Rightarrow> c | Some d \<Rightarrow> d) s"

definition convert :: "(codepoint \<Rightarrow> bool) \<Rightarrow> ustr \<Rightarrow> error + ustr" where
  \<comment> \<open>\<open>isalnum\<close> is Python's \<open>str.isalnum\<close> on one character, decided by the Unicode
      database of the interpreter; it is a parameter of the model\<close>
  "convert isalnum argument =
     (if \<not> (2 \<le> length argument \<and> length argument \<le> 96)
      then Inl (BadArgument length_message)
      else if \<not> list_all (\<lambda>c. isalnum c \<or> c \<in> set allowed_characters) argument
      then Inl (BadArgument characters_message)
      else (case maketrans allowed_characters replacement_characters of
              Inl e \<Rightarrow> Inl e
            | Inr table \<Rightarrow> Inr (translate table argument)))"

text \<open>
  Two instances of the parameter, for concrete inputs. The first agrees with \<open>str.isalnum\<close>
  on the code points below 128 (digits and the two Latin alphabets) and is False from 128
  on, where \<open>str.isalnum\<close> is True of many characters: it stands for \<open>str.isalnum\<close> at inputs
  of ASCII characters only. The second agrees with \<open>str.isalnum\<close> on the characters of the
  table as well: the mathematical capitals U+1D5A0 to U+1D5B9 and U+01C3 are letters, U+FF1F
  and U+2019 are punctuation.
\<close>

definition ascii_isalnum :: "codepoint \<Rightarrow> bool" where
  "ascii_isalnum c \<longleftrightarrow> (48 \<le> c \<and> c \<le> 57) \<or> (65 \<le> c \<and> c \<le> 90) \<or> (97 \<le> c \<and> c \<le> 122)"

definition table_isalnum :: "codepoint \<Rightarrow> bool" where
  "table_isalnum c \<longleftrightarrow> ascii_isalnum c \<or> (120224 \<le> c \<and> c \<le> 120249) \<or> c = 451"

text \<open>The table's effect on one character, in closed form.\<close>

definition substitute :: "codepoint \<Rightarrow> codepoint" where
  "substitute c =
     (if 65 \<le> c \<and> c \<le> 90 then c + 120159
      else if c = 33 then 451
      else if c = 63 then 65311
      else if c = 39 \<or> c = 96 then 8217
      else c)"

text \<open>
  The trimmed length that the specification speaks of: the length once leading and
  trailing whitespace is removed, as \<open>str.strip\<close> does. Only the ASCII whitespace
  characters are listed.
\<close>

definition ascii_isspace :: "codepoint \<Rightarrow> bool" where
  "ascii_isspace c \<longleftrightarrow> (9 \<le> c \<and> c \<le> 13) \<or> (28 \<le> c \<and> c \<le> 32)"

definition spec_trimmed_length :: "ustr \<Rightarrow> nat" where
  "spec_trimmed_length s =
     length (rev (dropWhile ascii_isspace (rev (dropWhile ascii_isspace s))))"

text \<open>Apostrophe and backtick identified, the only collision of the table.\<close>

definition unquote :: "codepoint \<Rightarrow> codepoint" where
  "unquote c = (if c = 96 then 39 else c)"

text \<open>
  The pairs of characters that the converter cannot tell apart: equal characters,
  apostrophe, backtick and their image U+2019 among themselves, and a character of the
  table with its image.
\<close>

definition same_output :: "codepoint \<Rightarrow> codepoint \<Rightarrow> bool" where
  "same_output c d \<longleftrightarrow>
     c = d \<or>
     (c \<in> {39, 96, 8217} \<and> d \<in> {39, 96, 8217}) \<or>
     (65 \<le> c \<and> c \<le> 90 \<and> d = c + 120159) \<or> (65 \<le> d \<and> d \<le> 90 \<and> c = d + 120159) \<or>
     (c = 33 \<and> d = 451) \<or> (c = 451 \<and> d = 33) \<or>
     (c = 63 \<and> d = 65311) \<or> (c = 65311 \<and> d = 63)"

section \<open>The updater task \<open>update_names\<close>\<close>

subsection \<open>Dates and durations\<close>

text \<open>
  A \<open>datetime\<close> is its date, as the proleptic Gregorian ordinal that \<open>toordinal\<close> gives,
  and its time of day. A \<open>timedelta\<close> is kept normalised by its constructor:
  \<open>0 \<le> seconds < 86400\<close>, \<open>0 \<le> microseconds < 1000000\<close>, the sign in \<open>days\<close>.
\<close>

record datetime =
  ordinal :: int
  hour :: int
  minute :: int
  second :: int
  microsecond :: int

record timedelta =
  days :: int
  seconds :: int
  microseconds :: int

definition MAXORDINAL :: int where
  \<comment> \<open>the ordinal of 9999-12-31\<close>
  "MAXORDINAL = 3652059"


definition timedelta_of :: "int \<Rightarrow> int \<Rightarrow> int \<Rightarrow> timedelta" where
  \<comment> \<open>\<open>timedelta(days, seconds, microseconds)\<close>, normalising with floor division\<close>
  "timedelta_of d s us =
     (let total = (d * 86400 + s) * 1000000 + us
      in \<lparr>days = total div 86400000000,
          seconds = (total mod 86400000000) div 1000000,
          microseconds = total mod 1000000\<rparr>)"

definition replace_midnight :: "datetime \<Rightarrow> datetime" where
  \<comment> \<open>\<open>replace(microsecond=0, second=0, minute=0, hour=0)\<close>\<close>
  "replace_midnight t = t\<lparr>microsecond := 0, second := 0, minute := 0, hour := 0\<rparr>"

definition datetime_add :: "datetime \<Rightarrow> timedelta \<Rightarrow> error + datetime" where
  \<comment> \<open>\<open>datetime + timedelta\<close>; OverflowError when the date leaves years 1 to 9999\<close>
  "datetime_add t d =
     (let delta = timedelta_of (ordinal t + days d)
                    (hour t * 3600 + minute t * 60 + second t + seconds d)
                    (microsecond t + microseconds d)
      in if 0 < days delta \<and> days delta \<le> MAXORDINAL
         then Inr \<lparr>ordinal = days delta,
                   hour = seconds delta div 3600,
                   minute = (seconds delta mod 3600) div 60,
                   second = seconds delta mod 60,
                   microsecond = microseconds delta\<rparr>
         else Inl OverflowError)"

definition datetime_sub :: "datetime \<Rightarrow> datetime \<Rightarrow> timedelta" where
  \<comment> \<open>\<open>datetime - datetime\<close>\<close>
  "datetime_sub a b =
     timedelta_of (ordinal a - ordinal b)
       ((second a + minute a * 60 + hour a * 3600) - (second b + minute b * 60 + hour b * 3600))
       (microsecond a - microsecond b)"

definition seconds_to_sleep :: "datetime \<Rightarrow> datetime \<Rightarrow> error + int" where
  \<comment> \<open>lines 48 to 50; the two arguments are the two readings of \<open>datetime.utcnow()\<close>\<close>
  "seconds_to_sleep now1 now2 =
     (let today_at_midnight = replace_midnight now1
      in case datetime_add today_at_midnight (timedelta_of 1 0 0) of
           Inl e \<Rightarrow> Inl e
         | Inr next_midnight \<Rightarrow> Inr (seconds (datetime_sub next_midnight now2) + 1))"

text \<open>
  The duration that the specification asks for: the whole seconds that remain from a
  clock reading until midnight. At a reading that is a midnight to the microsecond none
  remains.
\<close>

definition microsecond_of_day :: "datetime \<Rightarrow> int" where
  "microsecond_of_day t = ((hour t * 60 + minute t) * 60 + second t) * 1000000 + microsecond t"

definition spec_whole_seconds_until_midnight :: "datetime \<Rightarrow> int" where
  "spec_whole_seconds_until_midnight t =
     (if microsecond_of_day t = 0 then 0 else 86400000000 - microsecond_of_day t) div 1000000"

subsection \<open>One iteration and the loop\<close>

text \<open>
  What one iteration of \<open>while True\<close> meets: the two clock readings, what the request to
  the API gives (the list of names of the JSON body, or the exception raised), the
  channel object that \<open>bot.get_channel\<close> finds for an identifier (\<open>None\<close> when the
  channel is unknown), and whether \<open>edit\<close> on a channel raises.
\<close>

record cycle_env =
  utcnow_first :: datetime
  utcnow_second :: datetime
  api_get :: "error + ustr list"
  get_channel :: "nat \<Rightarrow> nat option"
  edit :: "nat \<Rightarrow> ustr \<Rightarrow> error option"

datatype event =
    Sleep int
  | ApiGet nat
  | LogError nat
  | ChannelEdit nat ustr
  | LogDebug ustr ustr ustr

fun unpack3 :: "ustr list \<Rightarrow> error + (ustr \<times> ustr \<times> ustr)" where
  \<comment> \<open>the assignment to three targets: ValueError unless there are exactly three values\<close>
  "unpack3 [a, b, c] = Inr (a, b, c)"
| "unpack3 _ = Inl ValueError"

fun caught_status :: "error \<Rightarrow> nat option" where
  \<comment> \<open>\<open>except ResponseCodeError as e\<close>: the clause takes this exception only\<close>
  "caught_status (ResponseCodeError status) = Some status"
| "caught_status _ = None"

definition edit_channel :: "cycle_env \<Rightarrow> nat option \<Rightarrow> ustr \<Rightarrow> event list \<times> error option" where
  \<comment> \<open>\<open>await channel.edit(name=...)\<close>; on \<open>None\<close> the attribute lookup raises\<close>
  "edit_channel env channel name =
     (case channel of
        None \<Rightarrow> ([], Some AttributeError)
      | Some c \<Rightarrow> ([ChannelEdit c name], edit env c name))"

definition rename_channels ::
  "nat \<times> nat \<times> nat \<Rightarrow> cycle_env \<Rightarrow> ustr \<times> ustr \<times> ustr \<Rightarrow> event list \<times> error option" where
  \<comment> \<open>lines 60 to 68\<close>
  "rename_channels CHANNELS env names =
     (case CHANNELS of (id0, id1, id2) \<Rightarrow>
      case names of (channel_0_name, channel_1_name, channel_2_name) \<Rightarrow>
        let channel_0 = get_channel env id0;
            channel_1 = get_channel env id1;
            channel_2 = get_channel env id2
        in case edit_channel env channel_0 (ascii ''ot0-'' @ channel_0_name) of
             (ev0, Some e) \<Rightarrow> (ev0, Some e)
           | (ev0, None) \<Rightarrow>
          (case edit_channel env channel_1 (ascii ''ot1-'' @ channel_1_name) of
             (ev1, Some e) \<Rightarrow> (ev0 @ ev1, Some e)
           | (ev1, None) \<Rightarrow>
          (case edit_channel env channel_2 (ascii ''ot2-'' @ channel_2_name) of
             (ev2, Some e) \<Rightarrow> (ev0 @ ev1 @ ev2, Some e)
           | (ev2, None) \<Rightarrow>
               (ev0 @ ev1 @ ev2 @ [LogDebug channel_0_name channel_1_name channel_2_name],
                None))))"

definition update_cycle :: "nat \<times> nat \<times> nat \<Rightarrow> cycle_env \<Rightarrow> event list \<times> error option" where
  \<comment> \<open>the body of \<open>while True\<close>: the events in order, and the exception that leaves the body,
      \<open>None\<close> when the body ends or reaches \<open>continue\<close>\<close>
  "update_cycle CHANNELS env =
     (case seconds_to_sleep (utcnow_first env) (utcnow_second env) of
        Inl e \<Rightarrow> ([], Some e)
      | Inr secs \<Rightarrow>
          (case api_get env of
             Inl e \<Rightarrow>
               (case caught_status e of
                  Some status \<Rightarrow> ([Sleep secs, ApiGet 3, LogError status], None)
                | None \<Rightarrow> ([Sleep secs, ApiGet 3], Some e))
           | Inr response \<Rightarrow>
               (case unpack3 response of
                  Inl e \<Rightarrow> ([Sleep secs, ApiGet 3], Some e)
                | Inr names \<Rightarrow>
                    (case rename_channels CHANNELS env names of
                       (evs, r) \<Rightarrow> (Sleep secs # ApiGet 3 # evs, r)))))"

text \<open>
  The loop has no exit of its own. It is run over the environments of its first
  iterations: the result is the trace of events and \<open>Some e\<close> when the exception \<open>e\<close>
  ended the task, \<open>None\<close> when the task is about to start its next iteration.
\<close>

fun update_names :: "nat \<times> nat \<times> nat \<Rightarrow> cycle_env list \<Rightarrow> event list \<times> error option" where
  "update_names CHANNELS [] = ([], None)"
| "update_names CHANNELS (env # envs) =
     (case update_cycle CHANNELS env of
        (evs, Some e) \<Rightarrow> (evs, Some e)
      | (evs, None) \<Rightarrow>
          (case update_names CHANNELS envs of (evs', r) \<Rightarrow> (evs @ evs', r)))"

fun is_edit :: "event \<Rightarrow> bool" where
  "is_edit (ChannelEdit c n) = True"
| "is_edit _ = False"

fun is_api_get :: "event \<Rightarrow> bool" where
  "is_api_get (ApiGet n) = True"
| "is_api_get _ = False"

section \<open>The cog \<open>OffTopicNames\<close>\<close>

subsection \<open>The handle of the updater task\<close>

text \<open>
  The tasks that the cog has created on the event loop, each running or asked to
  cancel, and the attribute \<open>updater_task\<close>: the index of a task, or \<open>None\<close>.
\<close>

datatype task_state = Running | CancelRequested

record cog_state =
  updater_task :: "nat option"
  tasks :: "task_state list"

definition cog_init :: cog_state where
  \<comment> \<open>\<open>__init__\<close>\<close>
  "cog_init = \<lparr>updater_task = None, tasks = []\<rparr>"

definition on_ready :: "cog_state \<Rightarrow> cog_state" where
  "on_ready st =
     (case updater_task st of
        None \<Rightarrow> st\<lparr>updater_task := Some (length (tasks st)), tasks := tasks st @ [Running]\<rparr>
      | Some t \<Rightarrow> st)"

definition cog_unload :: "cog_state \<Rightarrow> cog_state" where
  "cog_unload st =
     (case updater_task st of
        None \<Rightarrow> st
      | Some t \<Rightarrow> st\<lparr>tasks := (tasks st)[t := CancelRequested]\<rparr>)"

datatype cog_event = Ready | Unload

fun cog_step :: "cog_state \<Rightarrow> cog_event \<Rightarrow> cog_state" where
  "cog_step st Ready = on_ready st"
| "cog_step st Unload = cog_unload st"

definition cog_run :: "cog_event list \<Rightarrow> cog_state" where
  "cog_run evs = foldl cog_step cog_init evs"

subsection \<open>The command \<open>otname add\<close>\<close>

record ctx =
  author_name :: ustr
  author_discriminator :: ustr

datatype effect =
    ApiPost ustr
  | LogInfo ustr
  | Send ustr

fun join :: "ustr \<Rightarrow> ustr list \<Rightarrow> ustr" where
  \<comment> \<open>\<open>sep.join(names)\<close>\<close>
  "join sep [] = []"
| "join sep [x] = x"
| "join sep (x # y # ys) = x @ sep @ join sep (y # ys)"

definition added_message :: "ustr \<Rightarrow> ustr" where
  "added_message name = ascii '':ok_hand: Added `'' @ name @ ascii ''` to the names list.''"

definition add_command :: "ctx \<Rightarrow> error option \<Rightarrow> ustr list \<Rightarrow> effect list \<times> error option" where
  \<comment> \<open>the body of the command on the converted arguments; the second argument is the
      exception that the POST request raises, if any\<close>
  "add_command c post_raises names =
     (let name = join (ascii ''-'') names
      in case post_raises of
           Some e \<Rightarrow> ([ApiPost name], Some e)
         | None \<Rightarrow>
             ([ApiPost name,
               LogInfo (author_name c @ ascii ''#'' @ author_discriminator c @
                        ascii '' added the off-topic channel name '' @ [39] @ name),
               Send (added_message name)], None))"

fun convert_all :: "(codepoint \<Rightarrow> bool) \<Rightarrow> ustr list \<Rightarrow> error + ustr list" where
  \<comment> \<open>the annotation \<open>*names: OffTopicName\<close>: the framework passes each token of the
      message through the converter, in order, and the first failure aborts the command\<close>
  "convert_all isalnum [] = Inr []"
| "convert_all isalnum (t # ts) =
     (case convert isalnum t of
        Inl e \<Rightarrow> Inl e
      | Inr n \<Rightarrow>
          (case convert_all isalnum ts of
             Inl e \<Rightarrow> Inl e
           | Inr ns \<Rightarrow> Inr (n # ns)))"

definition invoke_add ::
  "(codepoint \<Rightarrow> bool) \<Rightarrow> ctx \<Rightarrow> error option \<Rightarrow> ustr list \<Rightarrow> effect list \<times> error option" where
  "invoke_add isalnum c post_raises tokens =
     (case convert_all isalnum tokens of
        Inl e \<Rightarrow> ([], Some e)
      | Inr names \<Rightarrow> add_command c post_raises names)"

fun is_post :: "effect \<Rightarrow> bool" where
  "is_post (ApiPost n) = True"
| "is_post _ = False"

fun is_send :: "effect \<Rightarrow> bool" where
  "is_send (Send m) = True"
| "is_send _ = False"

subsection \<open>The command \<open>otname search\<close>\<close>

text \<open>
  The command calls \<open>difflib.get_close_matches\<close> of the Python standard library, which is
  modelled from \<open>Lib/difflib.py\<close>. It compares through a \<open>SequenceMatcher\<close> built with
  \<open>isjunk=None\<close> and \<open>autojunk=True\<close>, whose first sequence \<open>a\<close> is the candidate name and
  whose second sequence \<open>b\<close> is the query. No element is junk, so the two loops of
  \<open>find_longest_match\<close> that extend a block over junk elements never run and are left out.
\<close>

type_synonym match = "nat \<times> nat \<times> nat"

definition b2j :: "ustr \<Rightarrow> codepoint \<Rightarrow> nat list" where
  \<comment> \<open>\<open>__chain_b\<close>: the positions of an element in \<open>b\<close>, in increasing order; when \<open>b\<close> has 200
      elements or more, an element at more than \<open>n // 100 + 1\<close> positions is dropped\<close>
  "b2j b elt =
     (let idxs = filter (\<lambda>j. b ! j = elt) [0..<length b]; n = length b
      in if n \<ge> 200 \<and> length idxs > n div 100 + 1 then [] else idxs)"

fun scan_row ::
  "nat \<Rightarrow> nat \<Rightarrow> nat \<Rightarrow> (nat \<Rightarrow> nat) \<Rightarrow> nat list \<Rightarrow> (nat \<Rightarrow> nat) \<times> match \<Rightarrow> (nat \<Rightarrow> nat) \<times> match" where
  \<comment> \<open>the inner loop \<open>for j in b2j.get(a[i], nothing)\<close>; a dictionary of lengths is a
      function that is 0 where the dictionary has no entry\<close>
  "scan_row i blo bhi j2len [] st = st"
| "scan_row i blo bhi j2len (j # js) (newj2len, (besti, bestj, bestsize)) =
     (if j < blo then scan_row i blo bhi j2len js (newj2len, (besti, bestj, bestsize))
      else if j \<ge> bhi then (newj2len, (besti, bestj, bestsize))
      else let k = (if j = 0 then 0 else j2len (j - 1)) + 1
           in scan_row i blo bhi j2len js
                (newj2len(j := k),
                 if k > bestsize then (i + 1 - k, j + 1 - k, k) else (besti, bestj, bestsize)))"

fun scan_rows ::
  "ustr \<Rightarrow> ustr \<Rightarrow> nat \<Rightarrow> nat \<Rightarrow> nat list \<Rightarrow> (nat \<Rightarrow> nat) \<times> match \<Rightarrow> match" where
  \<comment> \<open>the outer loop \<open>for i in range(alo, ahi)\<close>\<close>
  "scan_rows a b blo bhi [] (j2len, best) = best"
| "scan_rows a b blo bhi (i # rest) (j2len, best) =
     scan_rows a b blo bhi rest (scan_row i blo bhi j2len (b2j b (a ! i)) (\<lambda>j. 0, best))"

function extend_left :: "ustr \<Rightarrow> ustr \<Rightarrow> nat \<Rightarrow> nat \<Rightarrow> match \<Rightarrow> match" where
  "extend_left a b alo blo (besti, bestj, bestsize) =
     (if besti > alo \<and> bestj > blo \<and> a ! (besti - 1) = b ! (bestj - 1)
      then extend_left a b alo blo (besti - 1, bestj - 1, bestsize + 1)
      else (besti, bestj, bestsize))"
  by pat_completeness auto
termination
  by (relation "measure (\<lambda>(a, b, alo, blo, besti, bestj, bestsize). besti)") auto

function extend_right :: "ustr \<Rightarrow> ustr \<Rightarrow> nat \<Rightarrow> nat \<Rightarrow> match \<Rightarrow> match" where
  "extend_right a b ahi bhi (besti, bestj, bestsize) =
     (if besti + bestsize < ahi \<and> bestj + bestsize < bhi \<and>
         a ! (besti + bestsize) = b ! (bestj + bestsize)
      then extend_right a b ahi bhi (besti, bestj, bestsize + 1)
      else (besti, bestj, bestsize))"
  by pat_completeness auto
termination
  by (relation "measure (\<lambda>(a, b, ahi, bhi, besti, bestj, bestsize). ahi - (besti + bestsize))") auto

declare extend_left.simps [simp del] extend_right.simps [simp del]

definition find_longest_match :: "ustr \<Rightarrow> ustr \<Rightarrow> nat \<Rightarrow> nat \<Rightarrow> nat \<Rightarrow> nat \<Rightarrow> match" where
  "find_longest_match a b alo ahi blo bhi =
     extend_right a b ahi bhi
       (extend_left a b alo blo
          (scan_rows a b blo bhi [alo..<ahi] (\<lambda>j. 0, (alo, blo, 0))))"

text \<open>
  \<open>get_matching_blocks\<close> works through a queue of ranges: it takes a range, finds its
  longest match, and queues the range to the left and the range to the right of the match
  when they are not empty. \<open>ratio\<close> adds up the sizes of the blocks found. The recursion
  below visits the same ranges and gives that total; its termination is proved further
  down, from the bounds of \<open>find_longest_match\<close>.
\<close>

function matches_in :: "ustr \<Rightarrow> ustr \<Rightarrow> nat \<Rightarrow> nat \<Rightarrow> nat \<Rightarrow> nat \<Rightarrow> nat" where
  "matches_in a b alo ahi blo bhi =
     (case find_longest_match a b alo ahi blo bhi of
        (i, j, k) \<Rightarrow>
          if k = 0 then 0
          else k + (if alo < i \<and> blo < j then matches_in a b alo i blo j else 0)
                 + (if i + k < ahi \<and> j + k < bhi then matches_in a b (i + k) ahi (j + k) bhi
                    else 0))"
  by pat_completeness auto

text \<open>
  A ratio is the float \<open>2.0 * matches / length\<close> in Python. It is the exact quotient here:
  for numerators and denominators of this size two float quotients compare with each other
  and with the cutoff 0.70 as the exact quotients do with each other and with 7/10.
\<close>

definition calculate_ratio :: "nat \<Rightarrow> nat \<Rightarrow> rat" where
  "calculate_ratio matches len = (if len \<noteq> 0 then 2 * of_nat matches / of_nat len else 1)"

definition ratio :: "ustr \<Rightarrow> ustr \<Rightarrow> rat" where
  "ratio a b = calculate_ratio (matches_in a b 0 (length a) 0 (length b)) (length a + length b)"

fun quick_loop :: "ustr \<Rightarrow> ustr \<Rightarrow> (codepoint \<rightharpoonup> int) \<Rightarrow> nat \<Rightarrow> nat" where
  \<comment> \<open>the loop \<open>for elt in self.a\<close> of \<open>quick_ratio\<close>; \<open>fullbcount\<close> counts the elements of \<open>b\<close>\<close>
  "quick_loop b [] avail matches = matches"
| "quick_loop b (elt # rest) avail matches =
     (let numb = (case avail elt of Some n \<Rightarrow> n | None \<Rightarrow> int (count_list b elt))
      in quick_loop b rest (avail(elt \<mapsto> numb - 1)) (if numb > 0 then matches + 1 else matches))"

definition quick_ratio :: "ustr \<Rightarrow> ustr \<Rightarrow> rat" where
  "quick_ratio a b = calculate_ratio (quick_loop b a Map.empty 0) (length a + length b)"

definition real_quick_ratio :: "ustr \<Rightarrow> ustr \<Rightarrow> rat" where
  "real_quick_ratio a b = calculate_ratio (min (length a) (length b)) (length a + length b)"

definition nlargest :: "nat \<Rightarrow> (rat \<times> ustr) list \<Rightarrow> (rat \<times> ustr) list" where
  \<comment> \<open>\<open>heapq.nlargest(n, iterable)\<close>, which is \<open>sorted(iterable, reverse=True)[:n]\<close>; pairs
      compare by their first components and then by their second\<close>
  "nlargest n xs = take n (rev (sort xs))"

definition get_close_matches :: "ustr \<Rightarrow> ustr list \<Rightarrow> nat \<Rightarrow> rat \<Rightarrow> error + ustr list" where
  "get_close_matches word possibilities n cutoff =
     (if \<not> n > 0 then Inl ValueError
      else if \<not> (0 \<le> cutoff \<and> cutoff \<le> 1) then Inl ValueError
      else Inr (map snd (nlargest n
             (map (\<lambda>x. (ratio x word, x))
                (filter (\<lambda>x. real_quick_ratio x word \<ge> cutoff \<and>
                              quick_ratio x word \<ge> cutoff \<and>
                              ratio x word \<ge> cutoff) possibilities)))))"

definition bullet :: "ustr \<Rightarrow> ustr" where
  \<comment> \<open>the line of a name: U+2022, a space, the name\<close>
  "bullet name = [8226, 32] @ name"

datatype reply = Paginate "ustr list" | NothingFound

definition search_command :: "ustr list \<Rightarrow> ustr \<Rightarrow> error + reply" where
  \<comment> \<open>the body of the command on the names that the API returned and the converted query;
      Python compares strings code point by code point, as lists compare here\<close>
  "search_command result query =
     (let in_matches = {name \<in> set result. sublist query name}
      in case get_close_matches query result 10 (7 / 10) of
           Inl e \<Rightarrow> Inl e
         | Inr close_matches \<Rightarrow>
             (let lines = sorted_list_of_set (bullet ` (in_matches \<union> set close_matches))
              in if lines \<noteq> [] then Inr (Paginate lines) else Inr NothingFound))"

text \<open>
  The fuzzy matches as the specification words them: the names of ratio at least 0.70,
  ranked by descending ratio, equal ratios in the order of the list, at most 10 of them.
  The sort by key is stable.
\<close>

definition spec_fuzzy_matches :: "ustr list \<Rightarrow> ustr \<Rightarrow> ustr list" where
  "spec_fuzzy_matches names query =
     take 10 (sort_key (\<lambda>name. - ratio name query)
                (filter (\<lambda>name. ratio name query \<ge> 7 / 10) names))"

definition spec_search_lines :: "ustr list \<Rightarrow> ustr \<Rightarrow> ustr list" where
  "spec_search_lines names query =
     sorted_list_of_set
       (bullet ` ({name \<in> set names. sublist query name} \<union> set (spec_fuzzy_matches names query)))"

text \<open>The same ranking with equal ratios broken by the name, the larger name first.\<close>

definition fuzzy_by_name :: "ustr list \<Rightarrow> ustr \<Rightarrow> ustr list" where
  "fuzzy_by_name names query =
     take 10 (rev (sort_key (\<lambda>name. (ratio name query, name))
                     (filter (\<lambda>name. ratio name query \<ge> 7 / 10) names)))"

text \<open>
  For the proofs: what holds of the best match during the scan, what holds of a row of
  lengths, and the part of a list between two positions.
\<close>

definition good_match :: "ustr \<Rightarrow> ustr \<Rightarrow> nat \<Rightarrow> nat \<Rightarrow> nat \<Rightarrow> nat \<Rightarrow> match \<Rightarrow> bool" where
  "good_match a b alo ahi blo bhi m =
     (case m of (i, j, k) \<Rightarrow>
        if k = 0 then i = alo \<and> j = blo
        else alo \<le> i \<and> i + k \<le> ahi \<and> blo \<le> j \<and> j + k \<le> bhi \<and>
             (\<forall>t<k. a ! (i + t) = b ! (j + t)))"

definition row_ok :: "ustr \<Rightarrow> ustr \<Rightarrow> nat \<Rightarrow> nat \<Rightarrow> nat \<Rightarrow> nat \<Rightarrow> (nat \<Rightarrow> nat) \<Rightarrow> bool" where
  "row_ok a b alo blo bhi i f \<longleftrightarrow>
     (\<forall>j. f j \<noteq> 0 \<longrightarrow>
        j < bhi \<and> blo + f j \<le> j + 1 \<and> alo + f j \<le> i \<and>
        (\<forall>t<f j. a ! (i - f j + t) = b ! (j + 1 - f j + t)))"

definition slice :: "'a list \<Rightarrow> nat \<Rightarrow> nat \<Rightarrow> 'a list" where
  "slice xs lo hi = take (hi - lo) (drop lo xs)"

section \<open>Properties of the converter\<close>

lemma maketrans_table:
  "maketrans allowed_characters replacement_characters =
     Inr (map_of (rev (zip allowed_characters replacement_characters)))"
  by (simp add: maketrans_def allowed_characters_def ascii_def replacement_characters_def)

lemma table_allowed:
  "c \<in> set allowed_characters \<Longrightarrow>
     map_of (rev (zip allowed_characters replacement_characters)) c = Some (substitute c)"
  by (auto simp: allowed_characters_def ascii_def replacement_characters_def substitute_def)

lemma table_other:
  "c \<notin> set allowed_characters \<Longrightarrow>
     map_of (rev (zip allowed_characters replacement_characters)) c = None"
  by (simp add: allowed_characters_def ascii_def replacement_characters_def)

lemma substitute_other: "c \<notin> set allowed_characters \<Longrightarrow> substitute c = c"
  unfolding allowed_characters_def ascii_def substitute_def by simp arith

lemma translate_substitute:
  "translate (map_of (rev (zip allowed_characters replacement_characters))) s = map substitute s"
proof -
  have "(case map_of (rev (zip allowed_characters replacement_characters)) c of
           None \<Rightarrow> c | Some d \<Rightarrow> d) = substitute c" for c
    by (cases "c \<in> set allowed_characters")
       (simp_all add: table_allowed table_other substitute_other)
  then show ?thesis by (simp add: translate_def)
qed

lemma convert_Inr:
  "convert isalnum s = Inr s' \<longleftrightarrow>
     2 \<le> length s \<and> length s \<le> 96 \<and>
     list_all (\<lambda>c. isalnum c \<or> c \<in> set allowed_characters) s \<and> s' = map substitute s"
  by (auto simp: convert_def maketrans_table translate_substitute)

lemma substitute_eq_iff:
  "c < 128 \<Longrightarrow> d < 128 \<Longrightarrow> substitute c = substitute d \<longleftrightarrow> unquote c = unquote d"
  unfolding substitute_def unquote_def by (simp split: if_splits) arith
lemma allowed_ascii: "c \<in> set allowed_characters \<Longrightarrow> c < 128"
  by (auto simp: allowed_characters_def ascii_def)
lemma substitute_eq_same_output: "substitute c = substitute d \<longleftrightarrow> same_output c d"
  unfolding substitute_def same_output_def by (simp split: if_splits) arith

lemma map_substitute_eq_same_output:
  "map substitute s = map substitute t \<longleftrightarrow> list_all2 same_output s t"
proof (induction s arbitrary: t)
  case Nil
  then show ?case by auto
next
  case (Cons a s)
  then show ?case by (cases t) (auto simp: substitute_eq_same_output)
qed

lemma convert_AB: "convert table_isalnum [65, 66] = Inr [120224, 120225]"
  by (simp add: convert_Inr table_isalnum_def ascii_isalnum_def substitute_def)

lemma convert_AB_image: "convert table_isalnum [120224, 120225] = Inr [120224, 120225]"
  by (simp add: convert_Inr table_isalnum_def ascii_isalnum_def substitute_def)

lemma convert_A_apostrophe: "convert ascii_isalnum [65, 39] = Inr [120224, 8217]"
  by (simp add: convert_Inr ascii_isalnum_def substitute_def allowed_characters_def ascii_def)

lemma convert_A_backtick: "convert ascii_isalnum [65, 96] = Inr [120224, 8217]"
  by (simp add: convert_Inr ascii_isalnum_def substitute_def allowed_characters_def ascii_def)
subsection \<open>The substitution table\<close>

text \<open>
  Claim C1, as amended. The table sends apostrophe and backtick to the same character
  U+2019 and is injective apart from that: two characters of the allowed alphabet have the
  same image exactly when they are equal once backtick is read as apostrophe. Two accepted
  inputs have the same output exactly when they have the same length and at each position
  their characters are equal, or are both among apostrophe, backtick and U+2019, or are a
  character of the table and its image, which the converter also accepts as input when it
  is alphanumeric.
\<close>

theorem convert_collisions:
  assumes "maketrans allowed_characters replacement_characters = Inr table"
  shows "(\<forall>c\<in>set allowed_characters. \<forall>d\<in>set allowed_characters.
            (table c = table d) = (unquote c = unquote d)) \<and>
         (\<forall>s t s' t'. convert isalnum s = Inr s' \<and> convert isalnum t = Inr t' \<longrightarrow>
            (s' = t') = list_all2 same_output s t)"
proof -
  from assms have table: "table = map_of (rev (zip allowed_characters replacement_characters))"
    by (simp add: maketrans_table)
  have "(table c = table d) = (unquote c = unquote d)"
    if "c \<in> set allowed_characters" "d \<in> set allowed_characters" for c d
    using that by (simp add: table table_allowed substitute_eq_iff allowed_ascii)
  moreover have "(s' = t') = list_all2 same_output s t"
    if "convert isalnum s = Inr s'" "convert isalnum t = Inr t'" for s t s' t'
    using that by (simp add: convert_Inr map_substitute_eq_same_output)
  ultimately show ?thesis by blast
qed

theorem convert_collisions_witness:
  "map_of (rev (zip allowed_characters replacement_characters)) 65 \<noteq>
     map_of (rev (zip allowed_characters replacement_characters)) 66 \<and>
   map_of (rev (zip allowed_characters replacement_characters)) 39 =
     map_of (rev (zip allowed_characters replacement_characters)) 96 \<and>
   list_all2 same_output [65, 39] [65, 96] \<and>
   list_all2 same_output [65, 66] [120224, 120225]"
proof -
  note T = convert_collisions [OF maketrans_table]
  have mem: "65 \<in> set allowed_characters" "66 \<in> set allowed_characters"
    "39 \<in> set allowed_characters" "96 \<in> set allowed_characters"
    by (simp_all add: allowed_characters_def ascii_def)
  from T [of ascii_isalnum] mem have
    "(map_of (rev (zip allowed_characters replacement_characters)) 65 =
      map_of (rev (zip allowed_characters replacement_characters)) 66) = (unquote 65 = unquote 66)"
    "(map_of (rev (zip allowed_characters replacement_characters)) 39 =
      map_of (rev (zip allowed_characters replacement_characters)) 96) = (unquote 39 = unquote 96)"
    by blast+
  then have chars:
    "map_of (rev (zip allowed_characters replacement_characters)) 65 \<noteq>
       map_of (rev (zip allowed_characters replacement_characters)) 66"
    "map_of (rev (zip allowed_characters replacement_characters)) 39 =
       map_of (rev (zip allowed_characters replacement_characters)) 96"
    by (simp_all add: unquote_def)
  from T [of ascii_isalnum] convert_A_apostrophe convert_A_backtick
  have "([120224, 8217] = [120224, 8217 :: nat]) = list_all2 same_output [65, 39] [65, 96]"
    by blast
  then have quotes: "list_all2 same_output [65, 39] [65, 96]" by simp
  from T [of table_isalnum] convert_AB convert_AB_image
  have "([120224, 120225] = [120224, 120225 :: nat]) = list_all2 same_output [65, 66] [120224, 120225]"
    by blast
  then have images: "list_all2 same_output [65, 66] [120224, 120225]" by simp
  from chars quotes images show ?thesis by blast
qed

text \<open>
  Claim C1 as stated fails: apostrophe and backtick are distinct characters of the allowed
  alphabet with one image, and the distinct accepted inputs \<open>A'\<close> and \<open>A`\<close> have the same
  output.
\<close>

theorem table_not_injective:
  "39 \<in> set allowed_characters \<and> 96 \<in> set allowed_characters \<and> (39::nat) \<noteq> 96 \<and>
   maketrans allowed_characters replacement_characters \<noteq> Inl ValueError \<and>
   (case maketrans allowed_characters replacement_characters of
      Inl e \<Rightarrow> False | Inr table \<Rightarrow> table 39 = table 96) \<and>
   [65, 39] \<noteq> [65, 96::nat] \<and>
   convert ascii_isalnum [65, 39] = Inr [120224, 8217] \<and>
   convert ascii_isalnum [65, 96] = Inr [120224, 8217]"
proof -
  have mem: "39 \<in> set allowed_characters" "96 \<in> set allowed_characters"
    "65 \<in> set allowed_characters"
    by (simp_all add: allowed_characters_def ascii_def)
  have sub: "substitute 39 = 8217" "substitute 96 = 8217" "substitute 65 = 120224"
    by (simp_all add: substitute_def)
  show ?thesis
    by (simp add: maketrans_table table_allowed mem sub convert_Inr)
qed

text \<open>
  An image of the table that is alphanumeric collides with its original as well: \<open>AB\<close> and
  the string of U+1D5A0 and U+1D5A1 are both accepted and have the same output.
\<close>

lemma convert_image_collision:
  "[65, 66] \<noteq> [120224, 120225 :: nat] \<and>
   convert table_isalnum [65, 66] = Inr [120224, 120225] \<and>
   convert table_isalnum [120224, 120225] = Inr [120224, 120225]"
  by (simp add: convert_AB convert_AB_image)

subsection \<open>The length check\<close>

text \<open>
  Claim C7, as amended. The converter raises the length error exactly when the length of
  the argument as received, untrimmed, is not in [2, 96]; it then returns no transliterated
  string. The converter is a function of its argument and has no effect.
\<close>

theorem convert_length_error_iff:
  "(convert isalnum s = Inl (BadArgument length_message)) = (\<not> (2 \<le> length s \<and> length s \<le> 96)) \<and>
   (\<not> (2 \<le> length s \<and> length s \<le> 96) \<longrightarrow> (\<forall>s'. convert isalnum s \<noteq> Inr s'))"
  by (auto simp: convert_def maketrans_table length_message_def characters_message_def)
theorem convert_length_error_iff_witness:
  "convert ascii_isalnum [65] = Inl (BadArgument length_message) \<and>
   convert ascii_isalnum [65, 66] \<noteq> Inl (BadArgument length_message)"
  using convert_length_error_iff [of ascii_isalnum "[65]"]
        convert_length_error_iff [of ascii_isalnum "[65, 66]"]
  by simp

text \<open>
  Claim C7 as stated fails on the argument \<open>" A "\<close>: its trimmed length is 1, outside
  [2, 96], but its length is 3 and the converter raises the character error.
\<close>

theorem trimmed_length_counterexample:
  "spec_trimmed_length [32, 65, 32] = 1 \<and>
   convert ascii_isalnum [32, 65, 32] = Inl (BadArgument characters_message) \<and>
   \<not> ((convert ascii_isalnum [32, 65, 32] = Inl (BadArgument length_message)) =
       (\<not> (2 \<le> spec_trimmed_length [32, 65, 32] \<and> spec_trimmed_length [32, 65, 32] \<le> 96)))"
  by (simp add: spec_trimmed_length_def ascii_isspace_def convert_def ascii_isalnum_def
      allowed_characters_def ascii_def length_message_def characters_message_def)

subsection \<open>What the converter changes\<close>

text \<open>
  Claim C8, as amended. On an accepted input the output has the same length and each
  character is substituted on its own: an uppercase Latin letter becomes the mathematical
  sans-serif capital, \<open>!\<close> becomes U+01C3, \<open>?\<close> becomes U+FF1F, apostrophe and backtick
  become U+2019, and every other character (lowercase letters, digits, the minus sign) is
  kept. The output equals the input exactly when the input has no uppercase Latin letter
  and none of \<open>! ? ' `\<close>.
\<close>

theorem convert_output_shape:
  assumes "convert isalnum s = Inr s'"
  shows "length s' = length s \<and>
         (\<forall>i<length s. s' ! i = substitute (s ! i)) \<and>
         (s' = s) = (\<forall>c\<in>set s. \<not> (65 \<le> c \<and> c \<le> 90) \<and> c \<notin> {33, 63, 39, 96})"
proof -
  from assms have s': "s' = map substitute s" by (simp add: convert_Inr)
  have fixed: "(substitute c = c) = (\<not> (65 \<le> c \<and> c \<le> 90) \<and> c \<notin> {33, 63, 39, 96})" for c
    by (simp add: substitute_def)
  have "(map substitute s = s) = (\<forall>c\<in>set s. substitute c = c)"
    by (induction s) auto
  then show ?thesis by (simp add: s' fixed)
qed
theorem convert_output_shape_witness:
  "length [120224, 98, 8217 :: nat] = length [65, 98, 39 :: nat] \<and>
   [120224, 98, 8217] \<noteq> [65, 98, 39 :: nat]"
proof -
  have "convert ascii_isalnum [65, 98, 39] = Inr [120224, 98, 8217]"
    by (simp add: convert_Inr ascii_isalnum_def substitute_def allowed_characters_def ascii_def)
  from convert_output_shape [OF this] show ?thesis by simp
qed

text \<open>
  Claim C8 as stated fails: the accepted input \<open>a-1\<close> is stored as \<open>a-1\<close>, its ASCII
  letter unchanged, and can be typed back verbatim.
\<close>

theorem convert_verbatim_counterexample:
  "convert ascii_isalnum [97, 45, 49] = Inr [97, 45, 49]"
  by (simp add: convert_Inr ascii_isalnum_def substitute_def allowed_characters_def ascii_def)

section \<open>Properties of the updater task\<close>

subsection \<open>The sleep duration\<close>








lemma seconds_to_sleep_last_second:
  "seconds_to_sleep \<lparr>ordinal = 737425, hour = 23, minute = 59, second = 59, microsecond = 0\<rparr>
     \<lparr>ordinal = 737425, hour = 23, minute = 59, second = 59, microsecond = 0\<rparr> = Inr 2"
  by (simp add: seconds_to_sleep_def datetime_add_def replace_midnight_def timedelta_of_def
      datetime_sub_def Let_def MAXORDINAL_def)



text \<open>
  At a reading that is a midnight to the microsecond no whole second remains and the
  duration is 1, although \<open>next_midnight\<close> is a whole day away: the task updates one second
  past that midnight. The same holds when only the second reading falls on a midnight.
\<close>

lemma seconds_to_sleep_at_midnight:
  "datetime_sub \<lparr>ordinal = 737426, hour = 0, minute = 0, second = 0, microsecond = 0\<rparr>
     \<lparr>ordinal = 737425, hour = 0, minute = 0, second = 0, microsecond = 0\<rparr> =
     \<lparr>days = 1, seconds = 0, microseconds = 0\<rparr> \<and>
   seconds_to_sleep \<lparr>ordinal = 737425, hour = 0, minute = 0, second = 0, microsecond = 0\<rparr>
     \<lparr>ordinal = 737425, hour = 0, minute = 0, second = 0, microsecond = 0\<rparr> = Inr 1 \<and>
   spec_whole_seconds_until_midnight
     \<lparr>ordinal = 737425, hour = 0, minute = 0, second = 0, microsecond = 0\<rparr> = 0"
  by (simp add: seconds_to_sleep_def datetime_add_def replace_midnight_def timedelta_of_def
      datetime_sub_def Let_def MAXORDINAL_def spec_whole_seconds_until_midnight_def
      microsecond_of_day_def)

lemma seconds_to_sleep_across_midnight:
  "seconds_to_sleep \<lparr>ordinal = 737425, hour = 23, minute = 59, second = 59, microsecond = 999998\<rparr>
     \<lparr>ordinal = 737426, hour = 0, minute = 0, second = 0, microsecond = 0\<rparr> = Inr 1 \<and>
   seconds_to_sleep \<lparr>ordinal = 737425, hour = 23, minute = 59, second = 59, microsecond = 999998\<rparr>
     \<lparr>ordinal = 737426, hour = 0, minute = 0, second = 0, microsecond = 3\<rparr> = Inr 86400"
  by (simp add: seconds_to_sleep_def datetime_add_def replace_midnight_def timedelta_of_def
      datetime_sub_def Let_def MAXORDINAL_def)

subsection \<open>A failed request\<close>

lemma unpack3_ValueError: "length xs \<noteq> 3 \<Longrightarrow> unpack3 xs = Inl ValueError"
  by (cases xs rule: unpack3.cases) simp_all

text \<open>
  Claim C2. When the request for three random names raises the status-code error, the
  iteration logs the status and ends: its trace is the sleep, the one request and the log
  entry, with no call of \<open>edit\<close>, and the loop goes on with its next iteration, which starts
  by sleeping.
\<close>

theorem fetch_failure_skips_renames:
  assumes "seconds_to_sleep (utcnow_first env) (utcnow_second env) = Inr secs"
      and "api_get env = Inl (ResponseCodeError status)"
  shows "update_cycle CHANNELS env = ([Sleep secs, ApiGet 3, LogError status], None) \<and>
         filter is_edit (fst (update_cycle CHANNELS env)) = [] \<and>
         filter is_api_get (fst (update_cycle CHANNELS env)) = [ApiGet 3] \<and>
         update_names CHANNELS (env # envs) =
           ([Sleep secs, ApiGet 3, LogError status] @ fst (update_names CHANNELS envs),
            snd (update_names CHANNELS envs))"
  using assms by (simp add: update_cycle_def split: prod.splits)

theorem fetch_failure_skips_renames_witness:
  "update_names (1, 2, 3)
     [\<lparr>utcnow_first = \<lparr>ordinal = 737425, hour = 23, minute = 59, second = 59, microsecond = 0\<rparr>,
       utcnow_second = \<lparr>ordinal = 737425, hour = 23, minute = 59, second = 59, microsecond = 0\<rparr>,
       api_get = Inl (ResponseCodeError 500),
       get_channel = (\<lambda>i. Some i),
       edit = (\<lambda>c n. None)\<rparr>] = ([Sleep 2, ApiGet 3, LogError 500], None)"
  using fetch_failure_skips_renames [of
     "\<lparr>utcnow_first = \<lparr>ordinal = 737425, hour = 23, minute = 59, second = 59, microsecond = 0\<rparr>,
       utcnow_second = \<lparr>ordinal = 737425, hour = 23, minute = 59, second = 59, microsecond = 0\<rparr>,
       api_get = Inl (ResponseCodeError 500),
       get_channel = (\<lambda>i. Some i),
       edit = (\<lambda>c n. None)\<rparr>" 2 500 "(1, 2, 3)" "[]"]
  by (simp add: seconds_to_sleep_last_second)

subsection \<open>A response of the wrong length\<close>

text \<open>
  Claim C10. When the request succeeds with a list that does not have exactly three
  elements, the assignment to three targets raises ValueError, which the \<open>except\<close> clause
  does not take: the iteration renames nothing and the exception ends the loop, whatever
  the later iterations would have met.
\<close>

theorem malformed_success_ends_loop:
  assumes "seconds_to_sleep (utcnow_first env) (utcnow_second env) = Inr secs"
      and "api_get env = Inr response"
      and "length response \<noteq> 3"
  shows "update_cycle CHANNELS env = ([Sleep secs, ApiGet 3], Some ValueError) \<and>
         update_names CHANNELS (env # envs) = ([Sleep secs, ApiGet 3], Some ValueError) \<and>
         caught_status ValueError = None"
  using assms by (simp add: update_cycle_def unpack3_ValueError)

theorem malformed_success_ends_loop_witness:
  "update_names (1, 2, 3)
     [\<lparr>utcnow_first = \<lparr>ordinal = 737425, hour = 23, minute = 59, second = 59, microsecond = 0\<rparr>,
       utcnow_second = \<lparr>ordinal = 737425, hour = 23, minute = 59, second = 59, microsecond = 0\<rparr>,
       api_get = Inr [[97, 98], [99, 100]],
       get_channel = (\<lambda>i. Some i),
       edit = (\<lambda>c n. None)\<rparr>,
      \<lparr>utcnow_first = \<lparr>ordinal = 737426, hour = 23, minute = 59, second = 59, microsecond = 0\<rparr>,
       utcnow_second = \<lparr>ordinal = 737426, hour = 23, minute = 59, second = 59, microsecond = 0\<rparr>,
       api_get = Inr [[97, 98], [99, 100], [101, 102]],
       get_channel = (\<lambda>i. Some i),
       edit = (\<lambda>c n. None)\<rparr>] = ([Sleep 2, ApiGet 3], Some ValueError)"
  using malformed_success_ends_loop [of
     "\<lparr>utcnow_first = \<lparr>ordinal = 737425, hour = 23, minute = 59, second = 59, microsecond = 0\<rparr>,
       utcnow_second = \<lparr>ordinal = 737425, hour = 23, minute = 59, second = 59, microsecond = 0\<rparr>,
       api_get = Inr [[97, 98], [99, 100]],
       get_channel = (\<lambda>i. Some i),
       edit = (\<lambda>c n. None)\<rparr>" 2 "[[97, 98], [99, 100]]" "(1, 2, 3)"]
  by (simp add: seconds_to_sleep_last_second)

section \<open>Properties of the cog\<close>

subsection \<open>The handle of the updater task\<close>

lemma cog_run_snoc: "cog_run (evs @ [e]) = cog_step (cog_run evs) e"
  by (simp add: cog_run_def)

lemma cog_invariant:
  "(Ready \<notin> set evs \<and> cog_run evs = cog_init) \<or>
   (Ready \<in> set evs \<and> updater_task (cog_run evs) = Some 0 \<and> length (tasks (cog_run evs)) = 1)"
proof (induction evs rule: rev_induct)
  case Nil
  then show ?case by (simp add: cog_run_def)
next
  case (snoc e evs)
  then show ?case
    by (cases e) (auto simp: cog_run_snoc on_ready_def cog_unload_def cog_init_def)
qed

text \<open>
  Claim C6. After any sequence of ready events and unloads the cog has created at most one
  task. The handle is unset exactly as long as no ready event has come; the first ready
  event creates the task, a ready event with the handle set changes nothing, and an unload
  with the handle set asks that task to cancel.
\<close>

theorem at_most_one_updater_task:
  "length (tasks (cog_run evs)) \<le> 1 \<and>
   (updater_task (cog_run evs) = None) = (Ready \<notin> set evs) \<and>
   (Ready \<in> set evs \<longrightarrow> updater_task (cog_run evs) = Some 0 \<and> length (tasks (cog_run evs)) = 1) \<and>
   (updater_task (cog_run evs) \<noteq> None \<longrightarrow> on_ready (cog_run evs) = cog_run evs) \<and>
   (updater_task (cog_run evs) = None \<longrightarrow>
      updater_task (on_ready (cog_run evs)) = Some 0 \<and> tasks (on_ready (cog_run evs)) = [Running]) \<and>
   (Ready \<in> set evs \<longrightarrow> tasks (cog_unload (cog_run evs)) = [CancelRequested])"
  using cog_invariant [of evs]
  by (auto simp: on_ready_def cog_unload_def cog_init_def length_Suc_conv)

theorem at_most_one_updater_task_witness:
  "cog_run [Ready, Ready] = \<lparr>updater_task = Some 0, tasks = [Running]\<rparr> \<and>
   cog_run [Ready, Ready, Unload] = \<lparr>updater_task = Some 0, tasks = [CancelRequested]\<rparr>"
  using at_most_one_updater_task [of "[Ready, Ready]"]
  by (simp add: cog_run_def on_ready_def cog_unload_def cog_init_def)

subsection \<open>The command \<open>otname add\<close>\<close>

lemma convert_all_Inr:
  "convert_all isalnum tokens = Inr names \<longleftrightarrow>
     list_all2 (\<lambda>t n. convert isalnum t = Inr n) tokens names"
proof (induction tokens arbitrary: names)
  case Nil
  then show ?case by auto
next
  case (Cons t ts)
  then show ?case
    by (cases names) (auto split: sum.splits simp: Cons.IH [symmetric])
qed

lemma convert_all_substitute:
  "convert_all isalnum tokens = Inr names \<Longrightarrow> names = map (map substitute) tokens"
  by (induction tokens arbitrary: names) (auto split: sum.splits simp: convert_Inr)

lemma filter_post_add_command:
  "filter is_post (fst (add_command c post_raises names)) = [ApiPost (join (ascii ''-'') names)]"
  by (simp add: add_command_def Let_def split: option.splits)

lemma convert_FOO: "convert ascii_isalnum [70, 79, 79] = Inr [120229, 120238, 120238]"
  by (simp add: convert_Inr ascii_isalnum_def substitute_def)

lemma convert_BAR: "convert ascii_isalnum [66, 65, 82] = Inr [120225, 120224, 120241]"
  by (simp add: convert_Inr ascii_isalnum_def substitute_def)

text \<open>
  Claim C5. When every token passes the converter, the command posts exactly one name: the
  converted tokens joined with a minus sign. The tokens are converted one by one and the
  join is made of the results.
\<close>

theorem add_joins_after_conversion:
  assumes "list_all2 (\<lambda>t n. convert isalnum t = Inr n) tokens names"
  shows "convert_all isalnum tokens = Inr names \<and>
         filter is_post (fst (invoke_add isalnum c post_raises tokens)) =
           [ApiPost (join (ascii ''-'') names)] \<and>
         invoke_add isalnum c post_raises tokens = add_command c post_raises names"
proof -
  from assms have "convert_all isalnum tokens = Inr names"
    by (simp add: convert_all_Inr)
  then show ?thesis
    by (simp add: invoke_add_def filter_post_add_command)
qed

theorem add_joins_after_conversion_witness:
  "filter is_post (fst (invoke_add ascii_isalnum
       \<lparr>author_name = [109, 111, 100], author_discriminator = [48, 48, 48, 49]\<rparr> None
       [[70, 79, 79], [66, 65, 82]])) =
     [ApiPost [120229, 120238, 120238, 45, 120225, 120224, 120241]]"
  using add_joins_after_conversion [of ascii_isalnum "[[70, 79, 79], [66, 65, 82]]"
      "[[120229, 120238, 120238], [120225, 120224, 120241]]"
      "\<lparr>author_name = [109, 111, 100], author_discriminator = [48, 48, 48, 49]\<rparr>" None]
  by (simp add: convert_FOO convert_BAR ascii_def add_command_def Let_def)

text \<open>
  The check is on each token and not on the joined name: the tokens \<open>A\<close> and \<open>B\<close> are
  rejected for their length although \<open>A-B\<close> would pass.
\<close>

lemma add_rejects_short_tokens:
  "invoke_add ascii_isalnum c None [[65], [66]] = ([], Some (BadArgument length_message)) \<and>
   convert ascii_isalnum (join (ascii ''-'') [[65], [66]]) = Inr [120224, 45, 120225]"
proof -
  have "convert ascii_isalnum [65] = Inl (BadArgument length_message)"
    by (simp add: convert_def)
  then have short: "invoke_add ascii_isalnum c None [[65], [66]] = ([], Some (BadArgument length_message))"
    by (simp add: invoke_add_def)
  have joined: "join (ascii ''-'') [[65], [66]] = [65, 45, 66]"
    by (simp add: ascii_def)
  have "convert ascii_isalnum [65, 45, 66] = Inr [120224, 45, 120225]"
    by (simp add: convert_Inr ascii_isalnum_def substitute_def allowed_characters_def ascii_def)
  with short joined show ?thesis by simp
qed

text \<open>
  Claim C9, as amended. After a successful add the confirmation echoes the name that was
  posted, that is the transliterated tokens joined with a minus sign.
\<close>

theorem add_confirmation_echoes_posted_name:
  assumes "invoke_add isalnum c post_raises tokens = (effs, None)"
  shows "effs =
           [ApiPost (join (ascii ''-'') (map (map substitute) tokens)),
            LogInfo (author_name c @ ascii ''#'' @ author_discriminator c @
                     ascii '' added the off-topic channel name '' @ [39] @
                     join (ascii ''-'') (map (map substitute) tokens)),
            Send (added_message (join (ascii ''-'') (map (map substitute) tokens)))]"
proof (cases "convert_all isalnum tokens")
  case (Inl e)
  with assms show ?thesis by (simp add: invoke_add_def)
next
  case (Inr names)
  then have "names = map (map substitute) tokens" by (rule convert_all_substitute)
  with Inr assms show ?thesis
    by (auto simp: invoke_add_def add_command_def Let_def split: option.splits)
qed

theorem add_confirmation_echoes_posted_name_witness:
  "fst (invoke_add ascii_isalnum
       \<lparr>author_name = [109, 111, 100], author_discriminator = [48, 48, 48, 49]\<rparr> None
       [[70, 79, 79], [66, 65, 82]]) ! 2 =
     Send (added_message [120229, 120238, 120238, 45, 120225, 120224, 120241])"
proof -
  have run: "invoke_add ascii_isalnum
       \<lparr>author_name = [109, 111, 100], author_discriminator = [48, 48, 48, 49]\<rparr> None
       [[70, 79, 79], [66, 65, 82]] =
      (fst (invoke_add ascii_isalnum
       \<lparr>author_name = [109, 111, 100], author_discriminator = [48, 48, 48, 49]\<rparr> None
       [[70, 79, 79], [66, 65, 82]]), None)"
    by (simp add: invoke_add_def convert_FOO convert_BAR add_command_def Let_def)
  show ?thesis
    using add_confirmation_echoes_posted_name [OF run]
    by (simp add: substitute_def ascii_def)
qed

text \<open>
  Claim C9 as stated fails: for the tokens \<open>FOO\<close> and \<open>BAR\<close> the confirmation carries the
  transliterated name and not \<open>FOO-BAR\<close> as typed.
\<close>

theorem add_confirmation_raw_counterexample:
  "filter is_send (fst (invoke_add ascii_isalnum
       \<lparr>author_name = [109, 111, 100], author_discriminator = [48, 48, 48, 49]\<rparr> None
       [[70, 79, 79], [66, 65, 82]])) =
     [Send (added_message [120229, 120238, 120238, 45, 120225, 120224, 120241])] \<and>
   join (ascii ''-'') [[70, 79, 79], [66, 65, 82]] = [70, 79, 79, 45, 66, 65, 82] \<and>
   added_message [120229, 120238, 120238, 45, 120225, 120224, 120241] \<noteq>
     added_message (join (ascii ''-'') [[70, 79, 79], [66, 65, 82]])"
  by (simp add: invoke_add_def convert_FOO convert_BAR add_command_def Let_def added_message_def
      ascii_def)

subsection \<open>The command \<open>otname search\<close>\<close>

text \<open>
  The match that \<open>find_longest_match\<close> returns is empty, or lies in the two ranges and
  joins equal elements.
\<close>

lemma row_ok_empty: "row_ok a b alo blo bhi i (\<lambda>j. 0)"
  by (simp add: row_ok_def)

lemma b2j_member: "j \<in> set (b2j b e) \<Longrightarrow> j < length b \<and> b ! j = e"
  by (auto simp: b2j_def Let_def split: if_splits)

lemma new_entry_ok:
  assumes prev: "row_ok a b alo blo bhi i prev"
      and j: "blo \<le> j" "j < bhi" "b ! j = a ! i"
      and i: "alo \<le> i"
      and k: "k = (if j = 0 then 0 else prev (j - 1)) + 1"
  shows "blo + k \<le> j + 1 \<and> alo + k \<le> i + 1 \<and> (\<forall>t<k. a ! (i + 1 - k + t) = b ! (j + 1 - k + t))"
proof (cases "j = 0 \<or> prev (j - 1) = 0")
  case True
  then have "k = 1" using k by auto
  with j i show ?thesis by simp
next
  case False
  then have j0: "j \<noteq> 0" and p: "prev (j - 1) \<noteq> 0" by auto
  define k' where "k' = prev (j - 1)"
  from prev p have b1: "blo + k' \<le> j - 1 + 1" and b2: "alo + k' \<le> i"
    and m: "\<forall>t<k'. a ! (i - k' + t) = b ! (j - 1 + 1 - k' + t)"
    unfolding row_ok_def k'_def by blast+
  have kk: "k = k' + 1" using k j0 by (simp add: k'_def)
  have "a ! (i + 1 - k + t) = b ! (j + 1 - k + t)" if "t < k" for t
  proof (cases "t < k'")
    case True
    with m have "a ! (i - k' + t) = b ! (j - 1 + 1 - k' + t)" by blast
    moreover have "i + 1 - k = i - k'" "j + 1 - k = j - 1 + 1 - k'"
      using kk j0 by simp_all
    ultimately show ?thesis by simp
  next
    case False
    with that kk have "t = k'" by simp
    moreover have "i + 1 - k + k' = i" "j + 1 - k + k' = j"
      using kk b1 b2 j0 by simp_all
    ultimately show ?thesis using j by simp
  qed
  with b1 b2 kk j0 show ?thesis by simp
qed

lemma scan_row_ok:
  assumes "row_ok a b alo blo bhi i prev" "alo \<le> i" "i < ahi"
      and "\<forall>j\<in>set js. b ! j = a ! i"
      and "row_ok a b alo blo bhi (i + 1) new" "good_match a b alo ahi blo bhi best"
  shows "row_ok a b alo blo bhi (i + 1) (fst (scan_row i blo bhi prev js (new, best))) \<and>
         good_match a b alo ahi blo bhi (snd (scan_row i blo bhi prev js (new, best)))"
  using assms(4-6)
proof (induction js arbitrary: new best)
  case Nil
  then show ?case by simp
next
  case (Cons j js)
  obtain besti bestj bestsize where best: "best = (besti, bestj, bestsize)"
    by (cases best) auto
  show ?case
  proof (cases "j < blo")
    case True
    with Cons best show ?thesis by simp
  next
    case False
    note jblo = this
    show ?thesis
    proof (cases "j \<ge> bhi")
      case True
      with jblo Cons best show ?thesis by simp
    next
      case False
      define k where "k = (if j = 0 then 0 else prev (j - 1)) + 1"
      from Cons.prems have bj: "b ! j = a ! i" by simp
      from new_entry_ok [OF assms(1) _ _ bj assms(2) k_def] jblo False
      have e: "blo + k \<le> j + 1" "alo + k \<le> i + 1"
        "\<forall>t<k. a ! (i + 1 - k + t) = b ! (j + 1 - k + t)"
        by auto
      have kpos: "k \<noteq> 0" by (simp add: k_def)
      have new': "row_ok a b alo blo bhi (i + 1) (new(j := k))"
        using Cons.prems(2) e False unfolding row_ok_def by auto
      have best': "good_match a b alo ahi blo bhi
                     (if k > bestsize then (i + 1 - k, j + 1 - k, k) else (besti, bestj, bestsize))"
        using Cons.prems(3) e False kpos assms(3) unfolding good_match_def best by auto
      have rest: "\<forall>j\<in>set js. b ! j = a ! i" using Cons.prems(1) by simp
      have step: "scan_row i blo bhi prev (j # js) (new, best) =
                    scan_row i blo bhi prev js
                      (new(j := k),
                       if k > bestsize then (i + 1 - k, j + 1 - k, k) else (besti, bestj, bestsize))"
        using jblo False by (simp add: best k_def Let_def)
      show ?thesis unfolding step by (rule Cons.IH [OF rest new' best'])
    qed
  qed
qed

lemma scan_rows_ok:
  assumes "row_ok a b alo blo bhi i prev" "alo \<le> i" "good_match a b alo ahi blo bhi best"
  shows "good_match a b alo ahi blo bhi (scan_rows a b blo bhi [i..<ahi] (prev, best))"
  using assms
proof (induction "ahi - i" arbitrary: i prev best)
  case 0
  then show ?case by simp
next
  case (Suc n)
  then have lt: "i < ahi" by simp
  then have upt: "[i..<ahi] = i # [Suc i..<ahi]" by (simp add: upt_conv_Cons)
  have mem: "\<forall>j\<in>set (b2j b (a ! i)). b ! j = a ! i"
    using b2j_member by blast
  note step = scan_row_ok [OF Suc.prems(1) Suc.prems(2) lt mem row_ok_empty Suc.prems(3)]
  obtain new best' where r: "scan_row i blo bhi prev (b2j b (a ! i)) (\<lambda>j. 0, best) = (new, best')"
    by (cases "scan_row i blo bhi prev (b2j b (a ! i)) (\<lambda>j. 0, best)") auto
  with step have ok: "row_ok a b alo blo bhi (Suc i) new" "good_match a b alo ahi blo bhi best'"
    by simp_all
  have "n = ahi - Suc i" using Suc.hyps(2) by simp
  from Suc.hyps(1) [OF this ok(1) _ ok(2)] Suc.prems(2)
  have "good_match a b alo ahi blo bhi (scan_rows a b blo bhi [Suc i..<ahi] (new, best'))"
    by simp
  then show ?case by (simp add: upt r)
qed

lemma extend_left_ok:
  "good_match a b alo ahi blo bhi m \<Longrightarrow> good_match a b alo ahi blo bhi (extend_left a b alo blo m)"
proof (induction a b alo blo m rule: extend_left.induct)
  case (1 a b alo blo besti bestj bestsize)
  show ?case
  proof (cases "besti > alo \<and> bestj > blo \<and> a ! (besti - 1) = b ! (bestj - 1)")
    case True
    then have gt: "alo < besti" "blo < bestj" and eq: "a ! (besti - 1) = b ! (bestj - 1)"
      by simp_all
    from "1.prems" gt have old: "besti + bestsize \<le> ahi" "bestj + bestsize \<le> bhi"
      by (auto simp: good_match_def split: if_splits)
    from "1.prems" have oldm: "a ! (besti + t) = b ! (bestj + t)" if "t < bestsize" for t
      using that by (auto simp: good_match_def split: if_splits)
    have m: "a ! (besti - 1 + t) = b ! (bestj - 1 + t)" if "t < bestsize + 1" for t
    proof (cases t)
      case 0
      with eq show ?thesis by simp
    next
      case (Suc u)
      with that have "u < bestsize" by simp
      then have "a ! (besti + u) = b ! (bestj + u)" by (rule oldm)
      moreover have "besti - 1 + t = besti + u" "bestj - 1 + t = bestj + u"
        using Suc gt by simp_all
      ultimately show ?thesis by simp
    qed
    have bounds: "alo \<le> besti - 1" "blo \<le> bestj - 1"
      "besti - 1 + (bestsize + 1) \<le> ahi" "bestj - 1 + (bestsize + 1) \<le> bhi"
      using gt old by arith+
    have "good_match a b alo ahi blo bhi (besti - 1, bestj - 1, bestsize + 1)"
      unfolding good_match_def using bounds m by simp
    then have "good_match a b alo ahi blo bhi
                 (extend_left a b alo blo (besti - 1, bestj - 1, bestsize + 1))"
      using "1.IH" True by blast
    moreover have "extend_left a b alo blo (besti, bestj, bestsize) =
                     extend_left a b alo blo (besti - 1, bestj - 1, bestsize + 1)"
      by (subst extend_left.simps) (rule if_P [OF True])
    ultimately show ?thesis by simp
  next
    case False
    have "extend_left a b alo blo (besti, bestj, bestsize) = (besti, bestj, bestsize)"
      by (subst extend_left.simps) (rule if_not_P [OF False])
    with "1.prems" show ?thesis by simp
  qed
qed

lemma extend_right_ok:
  "good_match a b alo ahi blo bhi m \<Longrightarrow> good_match a b alo ahi blo bhi (extend_right a b ahi bhi m)"
proof (induction a b ahi bhi m rule: extend_right.induct)
  case (1 a b ahi bhi besti bestj bestsize)
  show ?case
  proof (cases "besti + bestsize < ahi \<and> bestj + bestsize < bhi \<and>
                a ! (besti + bestsize) = b ! (bestj + bestsize)")
    case True
    then have lt: "besti + bestsize < ahi" "bestj + bestsize < bhi"
      and eq: "a ! (besti + bestsize) = b ! (bestj + bestsize)"
      by simp_all
    from "1.prems" have lo: "alo \<le> besti" "blo \<le> bestj"
      by (auto simp: good_match_def split: if_splits)
    from "1.prems" have oldm: "a ! (besti + t) = b ! (bestj + t)" if "t < bestsize" for t
      using that by (auto simp: good_match_def split: if_splits)
    have m: "a ! (besti + t) = b ! (bestj + t)" if "t < bestsize + 1" for t
    proof (cases "t < bestsize")
      case True
      then show ?thesis by (rule oldm)
    next
      case False
      with that have "t = bestsize" by simp
      with eq show ?thesis by simp
    qed
    have "good_match a b alo ahi blo bhi (besti, bestj, bestsize + 1)"
      unfolding good_match_def using lo lt m by simp
    then have "good_match a b alo ahi blo bhi
                 (extend_right a b ahi bhi (besti, bestj, bestsize + 1))"
      using "1.IH" True by blast
    moreover have "extend_right a b ahi bhi (besti, bestj, bestsize) =
                     extend_right a b ahi bhi (besti, bestj, bestsize + 1)"
      by (subst extend_right.simps) (rule if_P [OF True])
    ultimately show ?thesis by simp
  next
    case False
    have "extend_right a b ahi bhi (besti, bestj, bestsize) = (besti, bestj, bestsize)"
      by (subst extend_right.simps) (rule if_not_P [OF False])
    with "1.prems" show ?thesis by simp
  qed
qed

lemma find_longest_match_ok:
  "good_match a b alo ahi blo bhi (find_longest_match a b alo ahi blo bhi)"
proof -
  have "good_match a b alo ahi blo bhi (alo, blo, 0)"
    by (simp add: good_match_def)
  from scan_rows_ok [OF row_ok_empty _ this]
  have "good_match a b alo ahi blo bhi (scan_rows a b blo bhi [alo..<ahi] (\<lambda>j. 0, (alo, blo, 0)))"
    by simp
  then show ?thesis
    unfolding find_longest_match_def by (intro extend_right_ok extend_left_ok)
qed

lemma find_longest_match_bounds:
  assumes "find_longest_match a b alo ahi blo bhi = (i, j, k)" "k \<noteq> 0"
  shows "alo \<le> i" "i + k \<le> ahi" "blo \<le> j" "j + k \<le> bhi"
    "\<forall>t<k. a ! (i + t) = b ! (j + t)"
  using find_longest_match_ok [of a b alo ahi blo bhi] assms
  by (simp_all add: good_match_def)

lemma flm_left_decreases:
  assumes "(i, j, k) = find_longest_match a b alo ahi blo bhi" "k \<noteq> 0" "alo < i"
  shows "i - alo < ahi - alo"
  using find_longest_match_bounds(1,2) [OF assms(1) [symmetric] assms(2)] assms(2,3) by arith

lemma flm_right_decreases:
  assumes "(i, j, k) = find_longest_match a b alo ahi blo bhi" "k \<noteq> 0" "i + k < ahi"
  shows "ahi - (i + k) < ahi - alo"
  using find_longest_match_bounds(1,2) [OF assms(1) [symmetric] assms(2)] assms(2,3) by arith

termination matches_in
proof (relation "measure (\<lambda>(a, b, alo, ahi, blo, bhi). ahi - alo)", goal_cases)
  case 1
  show ?case by simp
next
  case (2 a b alo ahi blo bhi x y xa ya)
  then have "(x, xa, ya) = find_longest_match a b alo ahi blo bhi" by simp
  from flm_left_decreases [OF this] 2 show ?case by simp
next
  case (3 a b alo ahi blo bhi x y xa ya)
  then have "(x, xa, ya) = find_longest_match a b alo ahi blo bhi" by simp
  from flm_right_decreases [OF this] 3 show ?case by simp
qed

declare matches_in.simps [simp del]

text \<open>
  The matches counted are at most the elements that the two strings share as multisets,
  which is what \<open>quick_ratio\<close> counts: the two upper bounds that \<open>get_close_matches\<close> tests
  first never reject a name that the ratio accepts.
\<close>

lemma slice_split:
  assumes "lo \<le> mid" "mid \<le> hi"
  shows "slice xs lo hi = slice xs lo mid @ slice xs mid hi"
proof -
  have "hi - lo = (mid - lo) + (hi - mid)" using assms by simp
  then have "take (hi - lo) (drop lo xs) =
      take (mid - lo) (drop lo xs) @ take (hi - mid) (drop (mid - lo) (drop lo xs))"
    by (simp only: take_add)
  moreover have "drop (mid - lo) (drop lo xs) = drop mid xs" using assms by simp
  ultimately show ?thesis by (simp add: slice_def)
qed

lemma slice_all: "slice xs 0 (length xs) = xs"
  by (simp add: slice_def)

lemma slice_eq:
  assumes "i + k \<le> length a" "j + k \<le> length b" "\<forall>t<k. a ! (i + t) = b ! (j + t)"
  shows "slice a i (i + k) = slice b j (j + k)"
proof (rule nth_equalityI)
  show "length (slice a i (i + k)) = length (slice b j (j + k))"
    using assms by (simp add: slice_def)
next
  fix t assume "t < length (slice a i (i + k))"
  then have "t < k" using assms by (simp add: slice_def)
  with assms show "slice a i (i + k) ! t = slice b j (j + k) ! t"
    by (simp add: slice_def)
qed

lemma length_slice: "hi \<le> length xs \<Longrightarrow> length (slice xs lo hi) = hi - lo"
  by (simp add: slice_def)

lemma inter_three:
  "size (A1 \<inter># B1) + size X + size (A3 \<inter># B3) \<le> size ((A1 + X + A3) \<inter># (B1 + X + B3))"
proof -
  have "(A1 \<inter># B1) + X + (A3 \<inter># B3) \<subseteq># A1 + X + A3"
    by (intro mset_subset_eq_mono_add subset_mset.inf_le1 subset_mset.order_refl)
  moreover have "(A1 \<inter># B1) + X + (A3 \<inter># B3) \<subseteq># B1 + X + B3"
    by (intro mset_subset_eq_mono_add subset_mset.inf_le2 subset_mset.order_refl)
  ultimately have "(A1 \<inter># B1) + X + (A3 \<inter># B3) \<subseteq># (A1 + X + A3) \<inter># (B1 + X + B3)"
    by simp
  from size_mset_mono [OF this] show ?thesis by simp
qed

lemma matches_in_le_inter:
  "alo \<le> ahi \<Longrightarrow> ahi \<le> length a \<Longrightarrow> blo \<le> bhi \<Longrightarrow> bhi \<le> length b \<Longrightarrow>
   matches_in a b alo ahi blo bhi \<le> size (mset (slice a alo ahi) \<inter># mset (slice b blo bhi))"
proof (induction a b alo ahi blo bhi rule: matches_in.induct)
  case (1 a b alo ahi blo bhi)
  obtain i j k where flm: "find_longest_match a b alo ahi blo bhi = (i, j, k)"
    by (cases "find_longest_match a b alo ahi blo bhi") auto
  show ?case
  proof (cases "k = 0")
    case True
    with flm show ?thesis by (subst matches_in.simps) simp
  next
    case False
    note bd = find_longest_match_bounds [OF flm False]
    define L where "L = (if alo < i \<and> blo < j then matches_in a b alo i blo j else 0)"
    define R where "R = (if i + k < ahi \<and> j + k < bhi then matches_in a b (i + k) ahi (j + k) bhi else 0)"
    have unfold: "matches_in a b alo ahi blo bhi = k + L + R"
      by (subst matches_in.simps) (simp add: flm False L_def R_def)
    have ile: "i \<le> length a" "j \<le> length b" using bd "1.prems" by simp_all
    have L: "L \<le> size (mset (slice a alo i) \<inter># mset (slice b blo j))"
    proof (cases "alo < i \<and> blo < j")
      case True
      have "L = matches_in a b alo i blo j" unfolding L_def by (rule if_P [OF True])
      with "1.IH"(1) [OF flm [symmetric] refl False True] True ile
      show ?thesis by simp
    next
      case False
      have "L = 0" unfolding L_def by (rule if_not_P [OF False])
      then show ?thesis by simp
    qed
    have R: "R \<le> size (mset (slice a (i + k) ahi) \<inter># mset (slice b (j + k) bhi))"
    proof (cases "i + k < ahi \<and> j + k < bhi")
      case True
      have "R = matches_in a b (i + k) ahi (j + k) bhi" unfolding R_def by (rule if_P [OF True])
      with "1.IH"(2) [OF flm [symmetric] refl False True] True "1.prems"
      show ?thesis by simp
    next
      case False
      have "R = 0" unfolding R_def by (rule if_not_P [OF False])
      then show ?thesis by simp
    qed
    have mid: "slice a i (i + k) = slice b j (j + k)"
      using bd "1.prems" by (intro slice_eq) simp_all
    have sa: "slice a alo ahi = slice a alo i @ slice a i (i + k) @ slice a (i + k) ahi"
      using bd by (simp add: slice_split [of alo i ahi] slice_split [of i "i + k" ahi])
    have sb: "slice b blo bhi = slice b blo j @ slice b j (j + k) @ slice b (j + k) bhi"
      using bd by (simp add: slice_split [of blo j bhi] slice_split [of j "j + k" bhi])
    have k: "k = size (mset (slice a i (i + k)))"
      using bd "1.prems" by (simp add: length_slice)
    have "k + L + R \<le> size (mset (slice a alo i) \<inter># mset (slice b blo j))
                       + size (mset (slice a i (i + k)))
                       + size (mset (slice a (i + k) ahi) \<inter># mset (slice b (j + k) bhi))"
      using L R k by simp
    also have "\<dots> \<le> size ((mset (slice a alo i) + mset (slice a i (i + k)) + mset (slice a (i + k) ahi))
                       \<inter># (mset (slice b blo j) + mset (slice a i (i + k)) + mset (slice b (j + k) bhi)))"
      by (rule inter_three)
    also have "\<dots> = size (mset (slice a alo ahi) \<inter># mset (slice b blo bhi))"
      by (simp add: sa sb mid ac_simps)
    finally show ?thesis by (simp add: unfold)
  qed
qed

lemma matches_le_inter:
  "matches_in a b 0 (length a) 0 (length b) \<le> size (mset a \<inter># mset b)"
  using matches_in_le_inter [of 0 "length a" a 0 "length b" b] by (simp add: slice_all)

lemma inter_add_mset:
  "size (add_mset x M \<inter># N) = size (M \<inter># N) + (if count M x < count N x then 1 else 0)"
proof -
  have "add_mset x M \<inter># N = (if count M x < count N x then add_mset x (M \<inter># N) else M \<inter># N)"
    by (rule multiset_eqI) auto
  then show ?thesis by simp
qed

lemma quick_loop_inter:
  assumes "\<forall>e. avail e = (if e \<in> set p then Some (int (count_list b e) - int (count_list p e)) else None)"
      and "matches = size (mset p \<inter># mset b)"
  shows "quick_loop b r avail matches = size (mset (p @ r) \<inter># mset b)"
  using assms
proof (induction r arbitrary: p avail matches)
  case Nil
  then show ?case by simp
next
  case (Cons elt r)
  define numb where "numb = (case avail elt of Some n \<Rightarrow> n | None \<Rightarrow> int (count_list b elt))"
  have numb: "numb = int (count_list b elt) - int (count_list p elt)"
    using Cons.prems(1) by (auto simp: numb_def count_list_0_iff)
  have avail': "\<forall>e. (avail(elt \<mapsto> numb - 1)) e =
      (if e \<in> set (p @ [elt]) then Some (int (count_list b e) - int (count_list (p @ [elt]) e)) else None)"
    using Cons.prems(1) numb by auto
  have pos: "numb > 0 \<longleftrightarrow> count (mset p) elt < count (mset b) elt"
    using numb by (simp add: count_mset)
  have m': "(if numb > 0 then matches + 1 else matches) = size (mset (p @ [elt]) \<inter># mset b)"
    using Cons.prems(2) pos by (simp add: inter_add_mset)
  have step: "quick_loop b (elt # r) avail matches =
      quick_loop b r (avail(elt \<mapsto> numb - 1)) (if numb > 0 then matches + 1 else matches)"
    by (simp add: numb_def Let_def)
  have "quick_loop b r (avail(elt \<mapsto> numb - 1)) (if numb > 0 then matches + 1 else matches) =
      size (mset ((p @ [elt]) @ r) \<inter># mset b)"
    by (rule Cons.IH [OF avail' m'])
  then show ?case unfolding step by simp
qed

lemma quick_loop_eq: "quick_loop b a Map.empty 0 = size (mset a \<inter># mset b)"
  using quick_loop_inter [of Map.empty "[]" b 0 a] by simp

lemma calculate_ratio_mono: "m \<le> m' \<Longrightarrow> calculate_ratio m len \<le> calculate_ratio m' len"
  by (simp add: calculate_ratio_def divide_right_mono)

lemma ratio_le_quick_ratio: "ratio a b \<le> quick_ratio a b"
  unfolding ratio_def quick_ratio_def quick_loop_eq
  by (rule calculate_ratio_mono) (rule matches_le_inter)

lemma ratio_le_real_quick_ratio: "ratio a b \<le> real_quick_ratio a b"
proof -
  have "size (mset a \<inter># mset b) \<le> size (mset a)" "size (mset a \<inter># mset b) \<le> size (mset b)"
    by (rule size_mset_mono, simp)+
  then have "size (mset a \<inter># mset b) \<le> length a" "size (mset a \<inter># mset b) \<le> length b"
    by simp_all
  then have "matches_in a b 0 (length a) 0 (length b) \<le> min (length a) (length b)"
    using matches_le_inter [of a b] by simp
  then show ?thesis
    unfolding ratio_def real_quick_ratio_def by (rule calculate_ratio_mono)
qed

lemma close_enough_iff:
  "(real_quick_ratio a b \<ge> cutoff \<and> quick_ratio a b \<ge> cutoff \<and> ratio a b \<ge> cutoff)
     \<longleftrightarrow> ratio a b \<ge> cutoff"
  using ratio_le_quick_ratio [of a b] ratio_le_real_quick_ratio [of a b] by auto

lemma insort_map_key:
  "insort_key (\<lambda>x. x) (f x) (map f ys) = map f (insort_key f x ys)"
  by (induction ys) simp_all

lemma sort_map_key: "sort (map f xs) = map f (sort_key f xs)"
  by (induction xs) (simp_all add: insort_map_key)

lemma get_close_matches_fuzzy_by_name:
  "get_close_matches query names 10 (7 / 10) = Inr (fuzzy_by_name names query)"
proof -
  have snd: "map snd (take 10 (rev (map (\<lambda>x. (ratio x query, x)) ys))) = take 10 (rev ys)"
    for ys :: "ustr list"
    by (simp add: take_map rev_map comp_def)
  show ?thesis
    unfolding get_close_matches_def close_enough_iff nlargest_def fuzzy_by_name_def sort_map_key snd
    by simp
qed

lemma fuzzy_by_name_best:
  assumes "x \<in> set names" "ratio x query \<ge> 7 / 10" "x \<notin> set (fuzzy_by_name names query)"
      and "y \<in> set (fuzzy_by_name names query)"
  shows "(ratio x query, x) \<le> (ratio y query, y)"
proof -
  define f where "f = (\<lambda>name. (ratio name query, name))"
  define ys where "ys = rev (sort_key f (filter (\<lambda>name. ratio name query \<ge> 7 / 10) names))"
  have fz: "fuzzy_by_name names query = take 10 ys"
    by (simp add: fuzzy_by_name_def ys_def f_def)
  have "sorted (map f (rev ys))" by (simp add: ys_def)
  then have "sorted_wrt (\<lambda>u v. f u \<le> f v) (rev ys)" by (simp add: sorted_map)
  then have "sorted_wrt (\<lambda>u v. f v \<le> f u) ys"
    by (simp add: sorted_wrt_rev)
  then have "sorted_wrt (\<lambda>u v. f v \<le> f u) (take 10 ys @ drop 10 ys)" by simp
  then have order: "\<forall>u\<in>set (take 10 ys). \<forall>v\<in>set (drop 10 ys). f v \<le> f u"
    by (simp only: sorted_wrt_append) blast
  have "x \<in> set ys" using assms(1,2) by (simp add: ys_def)
  then have "x \<in> set (take 10 ys) \<union> set (drop 10 ys)"
    by (metis append_take_drop_id set_append)
  with assms(3) fz have "x \<in> set (drop 10 ys)" by simp
  with order assms(4) fz show ?thesis by (simp add: f_def)
qed

lemma ratio_x_y:
  "ratio [120, 48, 121] [120, 121] = 4 / 5"
  "ratio [120, 49, 121] [120, 121] = 4 / 5"
  "ratio [120, 50, 121] [120, 121] = 4 / 5"
  "ratio [120, 51, 121] [120, 121] = 4 / 5"
  "ratio [120, 52, 121] [120, 121] = 4 / 5"
  "ratio [120, 53, 121] [120, 121] = 4 / 5"
  "ratio [120, 54, 121] [120, 121] = 4 / 5"
  "ratio [120, 55, 121] [120, 121] = 4 / 5"
  "ratio [120, 56, 121] [120, 121] = 4 / 5"
  "ratio [120, 57, 121] [120, 121] = 4 / 5"
  "ratio [120, 97, 121] [120, 121] = 4 / 5"
  by code_simp+

lemma no_substring:
  "c \<noteq> 120 \<Longrightarrow> c \<noteq> 121 \<Longrightarrow> \<not> sublist [120, 121] [120, c, 121 :: nat]"
  by (simp add: sublist_Cons_right)

lemma example_fuzzy_by_name:
  "fuzzy_by_name
     [[120, 48, 121], [120, 49, 121], [120, 50, 121], [120, 51, 121], [120, 52, 121],
      [120, 53, 121], [120, 54, 121], [120, 55, 121], [120, 56, 121], [120, 57, 121],
      [120, 97, 121]]
     [120, 121] =
     [[120, 97, 121], [120, 57, 121], [120, 56, 121], [120, 55, 121], [120, 54, 121],
      [120, 53, 121], [120, 52, 121], [120, 51, 121], [120, 50, 121], [120, 49, 121]]"
  by (simp add: fuzzy_by_name_def ratio_x_y sort_key_id_if_sorted)

lemma example_spec_fuzzy:
  "spec_fuzzy_matches
     [[120, 48, 121], [120, 49, 121], [120, 50, 121], [120, 51, 121], [120, 52, 121],
      [120, 53, 121], [120, 54, 121], [120, 55, 121], [120, 56, 121], [120, 57, 121],
      [120, 97, 121]]
     [120, 121] =
     [[120, 48, 121], [120, 49, 121], [120, 50, 121], [120, 51, 121], [120, 52, 121],
      [120, 53, 121], [120, 54, 121], [120, 55, 121], [120, 56, 121], [120, 57, 121]]"
  by (simp add: spec_fuzzy_matches_def ratio_x_y sort_key_id_if_sorted)

text \<open>
  Claim C3, as amended. The lines of the reply are the bullet lines, sorted and without
  duplicates, of the names that contain the query together with the fuzzy matches: the
  names of ratio at least 0.70 ranked by descending ratio, equal ratios by descending
  name, at most 10 of them. A name of ratio at least 0.70 that is left out ranks below
  every fuzzy match in that order. With no line the reply is the message that nothing was
  found.
\<close>

theorem search_lines_by_name:
  "search_command names query =
     Inr (let lines = sorted_list_of_set
                (bullet ` ({name \<in> set names. sublist query name} \<union> set (fuzzy_by_name names query)))
          in if lines \<noteq> [] then Paginate lines else NothingFound) \<and>
   length (fuzzy_by_name names query) \<le> 10 \<and>
   (\<forall>x\<in>set (fuzzy_by_name names query). x \<in> set names \<and> ratio x query \<ge> 7 / 10) \<and>
   (\<forall>x\<in>set names. \<forall>y\<in>set (fuzzy_by_name names query).
      ratio x query \<ge> 7 / 10 \<and> x \<notin> set (fuzzy_by_name names query) \<longrightarrow>
      (ratio x query, x) \<le> (ratio y query, y))"
proof -
  have "search_command names query =
     Inr (let lines = sorted_list_of_set
                (bullet ` ({name \<in> set names. sublist query name} \<union> set (fuzzy_by_name names query)))
          in if lines \<noteq> [] then Paginate lines else NothingFound)"
    by (simp add: search_command_def get_close_matches_fuzzy_by_name Let_def)
  moreover have "length (fuzzy_by_name names query) \<le> 10"
    by (simp add: fuzzy_by_name_def)
  moreover have "x \<in> set names \<and> ratio x query \<ge> 7 / 10"
    if "x \<in> set (fuzzy_by_name names query)" for x
  proof -
    from that have "x \<in> set (rev (sort_key (\<lambda>name. (ratio name query, name))
                     (filter (\<lambda>name. ratio name query \<ge> 7 / 10) names)))"
      unfolding fuzzy_by_name_def by (rule in_set_takeD)
    then show ?thesis by simp
  qed
  ultimately show ?thesis using fuzzy_by_name_best by blast
qed

theorem search_lines_by_name_witness:
  "search_command
     [[120, 48, 121], [120, 49, 121], [120, 50, 121], [120, 51, 121], [120, 52, 121],
      [120, 53, 121], [120, 54, 121], [120, 55, 121], [120, 56, 121], [120, 57, 121],
      [120, 97, 121]]
     [120, 121] =
   Inr (Paginate
     [[8226, 32, 120, 49, 121], [8226, 32, 120, 50, 121], [8226, 32, 120, 51, 121],
      [8226, 32, 120, 52, 121], [8226, 32, 120, 53, 121], [8226, 32, 120, 54, 121],
      [8226, 32, 120, 55, 121], [8226, 32, 120, 56, 121], [8226, 32, 120, 57, 121],
      [8226, 32, 120, 97, 121]]) \<and>
   ([120, 49, 121] \<in> set
     [[120, 48, 121], [120, 49, 121], [120, 50, 121], [120, 51, 121], [120, 52, 121],
      [120, 53, 121], [120, 54, 121], [120, 55, 121], [120, 56, 121], [120, 57, 121],
      [120, 97, 121]] \<and>
    7 / 10 \<le> ratio [120, 49, 121] [120, 121]) \<and>
   (ratio [120, 48, 121] [120, 121], [120, 48, 121 :: nat]) \<le>
     (ratio [120, 49, 121] [120, 121], [120, 49, 121])"
proof -
  note T = search_lines_by_name [of
   "[[120, 48, 121], [120, 49, 121], [120, 50, 121], [120, 51, 121], [120, 52, 121],
      [120, 53, 121], [120, 54, 121], [120, 55, 121], [120, 56, 121], [120, 57, 121],
      [120, 97, 121]]"
   "[120, 121]"]
  have none: "{name :: ustr. name \<in> set
     [[120, 48, 121], [120, 49, 121], [120, 50, 121], [120, 51, 121], [120, 52, 121],
      [120, 53, 121], [120, 54, 121], [120, 55, 121], [120, 56, 121], [120, 57, 121],
      [120, 97, 121]] \<and>
     sublist [120, 121] name} = {}"
    by (auto simp: no_substring)
  from T have "search_command
     [[120, 48, 121], [120, 49, 121], [120, 50, 121], [120, 51, 121], [120, 52, 121],
      [120, 53, 121], [120, 54, 121], [120, 55, 121], [120, 56, 121], [120, 57, 121],
      [120, 97, 121]]
     [120, 121] =
   Inr (Paginate
     [[8226, 32, 120, 49, 121], [8226, 32, 120, 50, 121], [8226, 32, 120, 51, 121],
      [8226, 32, 120, 52, 121], [8226, 32, 120, 53, 121], [8226, 32, 120, 54, 121],
      [8226, 32, 120, 55, 121], [8226, 32, 120, 56, 121], [8226, 32, 120, 57, 121],
      [8226, 32, 120, 97, 121]])"
    unfolding none example_fuzzy_by_name
    by (simp add: bullet_def image_set [symmetric] sorted_list_of_set_sort_remdups sorted_sort_id
        del: image_set)
  moreover from T have "[120, 49, 121] \<in> set
     [[120, 48, 121], [120, 49, 121], [120, 50, 121], [120, 51, 121], [120, 52, 121],
      [120, 53, 121], [120, 54, 121], [120, 55, 121], [120, 56, 121], [120, 57, 121],
      [120, 97, 121]] \<and>
    7 / 10 \<le> ratio [120, 49, 121] [120, 121]"
    unfolding example_fuzzy_by_name by simp
  moreover from T have
    "(ratio [120, 48, 121] [120, 121], [120, 48, 121 :: nat]) \<le>
     (ratio [120, 49, 121] [120, 121], [120, 49, 121])"
    unfolding example_fuzzy_by_name by (simp add: ratio_x_y)
  ultimately show ?thesis by blast
qed

text \<open>
  Claim C3 as stated fails. Against the query \<open>xy\<close> the eleven names \<open>x0y\<close>, \<open>x1y\<close>, ...,
  \<open>x9y\<close>, \<open>xay\<close> all have the ratio 4/5 and none contains the query. The command keeps
  the ten largest names and leaves out \<open>x0y\<close>, the first of the list; ties broken by the
  order of the list keep \<open>x0y\<close> and leave out \<open>xay\<close>.
\<close>

theorem search_tie_break_counterexample:
  "search_command
     [[120, 48, 121], [120, 49, 121], [120, 50, 121], [120, 51, 121], [120, 52, 121],
      [120, 53, 121], [120, 54, 121], [120, 55, 121], [120, 56, 121], [120, 57, 121],
      [120, 97, 121]]
     [120, 121] =
   Inr (Paginate
     [[8226, 32, 120, 49, 121], [8226, 32, 120, 50, 121], [8226, 32, 120, 51, 121],
      [8226, 32, 120, 52, 121], [8226, 32, 120, 53, 121], [8226, 32, 120, 54, 121],
      [8226, 32, 120, 55, 121], [8226, 32, 120, 56, 121], [8226, 32, 120, 57, 121],
      [8226, 32, 120, 97, 121]]) \<and>
   spec_search_lines
     [[120, 48, 121], [120, 49, 121], [120, 50, 121], [120, 51, 121], [120, 52, 121],
      [120, 53, 121], [120, 54, 121], [120, 55, 121], [120, 56, 121], [120, 57, 121],
      [120, 97, 121]]
     [120, 121] =
     [[8226, 32, 120, 48, 121], [8226, 32, 120, 49, 121], [8226, 32, 120, 50, 121],
      [8226, 32, 120, 51, 121], [8226, 32, 120, 52, 121], [8226, 32, 120, 53, 121],
      [8226, 32, 120, 54, 121], [8226, 32, 120, 55, 121], [8226, 32, 120, 56, 121],
      [8226, 32, 120, 57, 121]] \<and>
   ([8226, 32, 120, 48, 121] :: ustr) \<notin> set
     [[8226, 32, 120, 49, 121], [8226, 32, 120, 50, 121], [8226, 32, 120, 51, 121],
      [8226, 32, 120, 52, 121], [8226, 32, 120, 53, 121], [8226, 32, 120, 54, 121],
      [8226, 32, 120, 55, 121], [8226, 32, 120, 56, 121], [8226, 32, 120, 57, 121],
      [8226, 32, 120, 97, 121]]"
proof -
  have none: "{name :: ustr. name \<in> set
     [[120, 48, 121], [120, 49, 121], [120, 50, 121], [120, 51, 121], [120, 52, 121],
      [120, 53, 121], [120, 54, 121], [120, 55, 121], [120, 56, 121], [120, 57, 121],
      [120, 97, 121]] \<and>
     sublist [120, 121] name} = {}"
    by (auto simp: no_substring)
  have code: "search_command
     [[120, 48, 121], [120, 49, 121], [120, 50, 121], [120, 51, 121], [120, 52, 121],
      [120, 53, 121], [120, 54, 121], [120, 55, 121], [120, 56, 121], [120, 57, 121],
      [120, 97, 121]]
     [120, 121] =
   Inr (Paginate
     [[8226, 32, 120, 49, 121], [8226, 32, 120, 50, 121], [8226, 32, 120, 51, 121],
      [8226, 32, 120, 52, 121], [8226, 32, 120, 53, 121], [8226, 32, 120, 54, 121],
      [8226, 32, 120, 55, 121], [8226, 32, 120, 56, 121], [8226, 32, 120, 57, 121],
      [8226, 32, 120, 97, 121]])"
    unfolding search_command_def get_close_matches_fuzzy_by_name none example_fuzzy_by_name
    by (simp add: bullet_def image_set [symmetric] sorted_list_of_set_sort_remdups sorted_sort_id
        del: image_set)
  have spec: "spec_search_lines
     [[120, 48, 121], [120, 49, 121], [120, 50, 121], [120, 51, 121], [120, 52, 121],
      [120, 53, 121], [120, 54, 121], [120, 55, 121], [120, 56, 121], [120, 57, 121],
      [120, 97, 121]]
     [120, 121] =
     [[8226, 32, 120, 48, 121], [8226, 32, 120, 49, 121], [8226, 32, 120, 50, 121],
      [8226, 32, 120, 51, 121], [8226, 32, 120, 52, 121], [8226, 32, 120, 53, 121],
      [8226, 32, 120, 54, 121], [8226, 32, 120, 55, 121], [8226, 32, 120, 56, 121],
      [8226, 32, 120, 57, 121]]"
    unfolding spec_search_lines_def none example_spec_fuzzy
    by (simp add: bullet_def image_set [symmetric] sorted_list_of_set_sort_remdups sorted_sort_id
        del: image_set)
  from code spec show ?thesis by simp
qed

end
